theory Spec2Isabelle
  imports Main "HOL-Library.Char_ord" "HOL-Library.List_Lexorder"
begin

unbundle bit_operations_syntax

section \<open>The library functions that blockchain.py calls\<close>

text \<open>
  \<^verbatim>\<open>blockchain.py\<close> imports \<^verbatim>\<open>hashlib\<close>, \<^verbatim>\<open>json\<close> and \<^verbatim>\<open>time\<close>. This section
  gives the three library behaviours the class relies on: the decimal text of a
  Python \<^verbatim>\<open>int\<close>, \<^verbatim>\<open>hashlib.sha256(bytes).hexdigest()\<close> (FIPS 180-4) and
  \<^verbatim>\<open>json.dumps(obj, sort_keys=True)\<close> with CPython's defaults.

  A Python \<^verbatim>\<open>str\<close> is a list of code points; here the code points are those of
  U+0000 to U+00FF, one \<^typ>\<open>char\<close> each. \<^verbatim>\<open>bytes\<close> are a \<^typ>\<open>char list\<close> as well,
  one \<^typ>\<open>char\<close> per byte.
\<close>

subsection \<open>Decimal text of an int, and str.encode()\<close>

definition digit_char :: "nat \<Rightarrow> char" where
  "digit_char n = ''0123456789abcdef'' ! n"

fun digits :: "nat \<Rightarrow> string" where
  "digits n = (if n < 10 then [digit_char n] else digits (n div 10) @ [digit_char (n mod 10)])"

declare digits.simps [simp del]

text \<open>\<^verbatim>\<open>str(i)\<close>, which is also what \<^verbatim>\<open>f"{i}"\<close> and \<^verbatim>\<open>json\<close> write for an int.\<close>

definition str_int :: "int \<Rightarrow> string" where
  "str_int i = (if i < 0 then CHR ''-'' # digits (nat (- i)) else digits (nat i))"

text \<open>\<^verbatim>\<open>s.encode()\<close>: UTF-8. A code point below 128 is one byte, the others (up to
  U+00FF here) are two.\<close>

definition utf8_char :: "char \<Rightarrow> char list" where
  "utf8_char c =
     (let n = (of_char c :: nat)
      in if n < 128 then [c] else [char_of (192 + n div 64), char_of (128 + n mod 64)])"

definition encode :: "string \<Rightarrow> char list" where
  "encode s = concat (map utf8_char s)"

subsection \<open>SHA-256\<close>

text \<open>A 32-bit word is an \<^typ>\<open>int\<close> in \<open>0 ..< 2 ^ 32\<close>; addition wraps around.\<close>

type_synonym u32 = int

definition add32 :: "u32 \<Rightarrow> u32 \<Rightarrow> u32" where
  "add32 x y = (x + y) mod 2 ^ 32"

definition not32 :: "u32 \<Rightarrow> u32" where
  "not32 x = x XOR 0xFFFFFFFF"

definition rotr :: "nat \<Rightarrow> u32 \<Rightarrow> u32" where
  "rotr n x = drop_bit n x OR take_bit 32 (push_bit (32 - n) x)"

definition K :: "u32 list" where
  "K = [0x428A2F98, 0x71374491, 0xB5C0FBCF, 0xE9B5DBA5, 0x3956C25B, 0x59F111F1, 0x923F82A4, 0xAB1C5ED5,
        0xD807AA98, 0x12835B01, 0x243185BE, 0x550C7DC3, 0x72BE5D74, 0x80DEB1FE, 0x9BDC06A7, 0xC19BF174,
        0xE49B69C1, 0xEFBE4786, 0x0FC19DC6, 0x240CA1CC, 0x2DE92C6F, 0x4A7484AA, 0x5CB0A9DC, 0x76F988DA,
        0x983E5152, 0xA831C66D, 0xB00327C8, 0xBF597FC7, 0xC6E00BF3, 0xD5A79147, 0x06CA6351, 0x14292967,
        0x27B70A85, 0x2E1B2138, 0x4D2C6DFC, 0x53380D13, 0x650A7354, 0x766A0ABB, 0x81C2C92E, 0x92722C85,
        0xA2BFE8A1, 0xA81A664B, 0xC24B8B70, 0xC76C51A3, 0xD192E819, 0xD6990624, 0xF40E3585, 0x106AA070,
        0x19A4C116, 0x1E376C08, 0x2748774C, 0x34B0BCB5, 0x391C0CB3, 0x4ED8AA4A, 0x5B9CCA4F, 0x682E6FF3,
        0x748F82EE, 0x78A5636F, 0x84C87814, 0x8CC70208, 0x90BEFFFA, 0xA4506CEB, 0xBEF9A3F7, 0xC67178F2]"

definition H0 :: "u32 list" where
  "H0 = [0x6A09E667, 0xBB67AE85, 0x3C6EF372, 0xA54FF53A, 0x510E527F, 0x9B05688C, 0x1F83D9AB, 0x5BE0CD19]"

definition ssig0 :: "u32 \<Rightarrow> u32" where
  "ssig0 x = rotr 7 x XOR rotr 18 x XOR drop_bit 3 x"

definition ssig1 :: "u32 \<Rightarrow> u32" where
  "ssig1 x = rotr 17 x XOR rotr 19 x XOR drop_bit 10 x"

definition bsig0 :: "u32 \<Rightarrow> u32" where
  "bsig0 x = rotr 2 x XOR rotr 13 x XOR rotr 22 x"

definition bsig1 :: "u32 \<Rightarrow> u32" where
  "bsig1 x = rotr 6 x XOR rotr 11 x XOR rotr 25 x"

definition ch :: "u32 \<Rightarrow> u32 \<Rightarrow> u32 \<Rightarrow> u32" where
  "ch x y z = (x AND y) XOR (not32 x AND z)"

definition maj :: "u32 \<Rightarrow> u32 \<Rightarrow> u32 \<Rightarrow> u32" where
  "maj x y z = (x AND y) XOR (x AND z) XOR (y AND z)"

text \<open>The message schedule, newest word first: \<open>sched 48\<close> extends the 16 words of a
  chunk to 64.\<close>

fun sched :: "nat \<Rightarrow> u32 list \<Rightarrow> u32 list" where
  "sched 0 ws = ws"
| "sched (Suc n) ws =
     sched n (add32 (add32 (add32 (ssig1 (ws ! 1)) (ws ! 6)) (ssig0 (ws ! 14))) (ws ! 15) # ws)"

text \<open>One round on the working variables \<open>a, ..., h\<close>.\<close>

fun sha_round :: "u32 list \<Rightarrow> u32 \<times> u32 \<Rightarrow> u32 list" where
  "sha_round [a, b, c, d, e, f, g, h] (k, w) =
     (let t1 = add32 (add32 (add32 (add32 h (bsig1 e)) (ch e f g)) k) w;
          t2 = add32 (bsig0 a) (maj a b c)
      in [add32 t1 t2, a, b, c, add32 d t1, e, f, g])"
| "sha_round s kw = s"

definition be32 :: "char \<Rightarrow> char \<Rightarrow> char \<Rightarrow> char \<Rightarrow> u32" where
  "be32 a b c d = ((of_char a * 256 + of_char b) * 256 + of_char c) * 256 + of_char d"

fun words_of :: "char list \<Rightarrow> u32 list" where
  "words_of (a # b # c # d # r) = be32 a b c d # words_of r"
| "words_of r = []"

definition compress :: "u32 list \<Rightarrow> char list \<Rightarrow> u32 list" where
  "compress hs chunk =
     (let ws = rev (sched 48 (rev (words_of chunk)))
      in map2 add32 hs (foldl sha_round hs (zip K ws)))"

fun chunks :: "nat \<Rightarrow> char list \<Rightarrow> char list list" where
  "chunks 0 m = []"
| "chunks (Suc n) m = take 64 m # chunks n (drop 64 m)"

text \<open>Padding: the byte \<open>0x80\<close>, zero bytes up to 56 modulo 64, and the length of the
  message in bits as 8 big-endian bytes.\<close>

definition bitlen :: "nat \<Rightarrow> char list" where
  "bitlen l = map (\<lambda>i. char_of ((int (8 * l) div 256 ^ i) mod 256)) [7, 6, 5, 4, 3, 2, 1, 0]"

definition pad :: "char list \<Rightarrow> char list" where
  "pad m = m @ [CHR 0x80] @ replicate ((119 - length m mod 64) mod 64) (CHR 0x00) @ bitlen (length m)"

definition sha256 :: "char list \<Rightarrow> u32 list" where
  "sha256 m = (let p = pad m in foldl compress H0 (chunks (length p div 64) p))"

definition hex32 :: "u32 \<Rightarrow> string" where
  "hex32 w = map (\<lambda>i. digit_char (nat ((w div 16 ^ i) mod 16))) [7, 6, 5, 4, 3, 2, 1, 0]"

text \<open>\<^verbatim>\<open>hashlib.sha256(m).hexdigest()\<close>\<close>

definition hexdigest :: "char list \<Rightarrow> string" where
  "hexdigest m = concat (map hex32 (sha256 m))"

subsection \<open>json.dumps(obj, sort_keys=True)\<close>

text \<open>
  The Python values the class serialises: \<^verbatim>\<open>None\<close>, ints, floats, strings, lists and
  dicts with string keys. A dict is the list of its items in insertion order.
  The type \<open>'f\<close> stands for Python's \<^verbatim>\<open>float\<close>; the text \<^verbatim>\<open>json\<close> writes for a
  float (\<^verbatim>\<open>float.__repr__\<close>, or \<^verbatim>\<open>NaN\<close>, \<^verbatim>\<open>Infinity\<close>, \<^verbatim>\<open>-Infinity\<close>) is the
  parameter \<open>fr\<close> of \<open>json_dumps\<close>.
\<close>

datatype 'f json =
    JNull
  | JInt int
  | JFloat 'f
  | JStr string
  | JList "'f json list"
  | JDict "(string \<times> 'f json) list"

definition hex4 :: "nat \<Rightarrow> string" where
  "hex4 n = map (\<lambda>i. digit_char ((n div 16 ^ i) mod 16)) [3, 2, 1, 0]"

text \<open>\<^verbatim>\<open>json.encoder.encode_basestring_ascii\<close>: the default \<^verbatim>\<open>ensure_ascii=True\<close>.\<close>

definition escape_char :: "char \<Rightarrow> string" where
  "escape_char c =
     (if c = CHR 0x22 then [CHR 0x5C, CHR 0x22]
      else if c = CHR 0x5C then [CHR 0x5C, CHR 0x5C]
      else if c = CHR 0x08 then [CHR 0x5C, CHR ''b'']
      else if c = CHR 0x0C then [CHR 0x5C, CHR ''f'']
      else if c = CHR 0x0A then [CHR 0x5C, CHR ''n'']
      else if c = CHR 0x0D then [CHR 0x5C, CHR ''r'']
      else if c = CHR 0x09 then [CHR 0x5C, CHR ''t'']
      else if (of_char c :: nat) < 0x20 \<or> (0x7E :: nat) < of_char c
        then [CHR 0x5C, CHR ''u''] @ hex4 (of_char c)
      else [c])"

definition encode_basestring_ascii :: "string \<Rightarrow> string" where
  "encode_basestring_ascii s = [CHR 0x22] @ concat (map escape_char s) @ [CHR 0x22]"

fun join :: "string \<Rightarrow> string list \<Rightarrow> string" where
  "join sep [] = []"
| "join sep [x] = x"
| "join sep (x # y # ys) = x @ sep @ join sep (y # ys)"

text \<open>With \<^verbatim>\<open>sort_keys=True\<close> the items of every dict are written in the order of
  their keys; the separators are the defaults \<^verbatim>\<open>", "\<close> and \<^verbatim>\<open>": "\<close>.\<close>

function json_dumps :: "('f \<Rightarrow> string) \<Rightarrow> 'f json \<Rightarrow> string" where
  "json_dumps fr JNull = ''null''"
| "json_dumps fr (JInt i) = str_int i"
| "json_dumps fr (JFloat x) = fr x"
| "json_dumps fr (JStr s) = encode_basestring_ascii s"
| "json_dumps fr (JList xs) = ''['' @ join '', '' (map (json_dumps fr) xs) @ '']''"
| "json_dumps fr (JDict kvs) =
     ''{'' @ join '', ''
        (map (\<lambda>kv. encode_basestring_ascii (fst kv) @ '': '' @ json_dumps fr (snd kv))
           (sort_key fst kvs)) @ ''}''"
  by pat_completeness auto
termination
proof (relation "measure (\<lambda>(fr, j). size j)")
  show "wf (measure (\<lambda>(fr, j). size j))"
    by simp
next
  fix fr :: "'f \<Rightarrow> string" and xs :: "'f json list" and x :: "'f json"
  assume "x \<in> set xs"
  then have "size x < Suc (size_list size xs)"
    by (induction xs) auto
  then show "((fr, x), (fr, JList xs)) \<in> measure (\<lambda>(fr, j). size j)"
    by simp
next
  fix fr :: "'f \<Rightarrow> string" and kvs :: "(string \<times> 'f json) list" and kv :: "string \<times> 'f json"
  assume "kv \<in> set (sort_key fst kvs)"
  then have "kv \<in> set kvs"
    by simp
  then have "size (snd kv) < Suc (size_list (size_prod (\<lambda>k. 0) size) kvs)"
    by (induction kvs) auto
  then show "((fr, snd kv), (fr, JDict kvs)) \<in> measure (\<lambda>(fr, j). size j)"
    by simp
qed

section \<open>The Blockchain class\<close>

text \<open>
  A transaction is the dict \<^verbatim>\<open>{"sender": ..., "recipient": ..., "amount": ...}\<close> that
  \<^verbatim>\<open>new_transaction\<close> builds; the amount is a number, an int or a float.
\<close>

datatype 'f number = NInt int | NFloat 'f

record 'f transaction =
  sender :: string
  recipient :: string
  amount :: "'f number"

text \<open>
  The values \<^verbatim>\<open>previous_hash\<close> takes: \<^verbatim>\<open>None\<close> (the default of the parameter), an
  int (\<^verbatim>\<open>__init__\<close> passes \<^verbatim>\<open>1\<close>) or a string (a digest).
\<close>

datatype prev = PNone | PInt int | PStr string

text \<open>
  List objects are mutable and shared by reference: \<^verbatim>\<open>new_block\<close> stores the list
  object \<^verbatim>\<open>self.current_transactions\<close> itself in the block, and \<^verbatim>\<open>new_transaction\<close>
  appends to that object in place. So the transaction lists live in a heap, and a
  block and the object hold the address of a list. A block is the dict that
  \<^verbatim>\<open>new_block\<close> builds (the field \<^verbatim>\<open>proof\<close> is written \<open>proof'\<close>, the attribute \<^verbatim>\<open>chain\<close> is
  written \<open>chain'\<close>, and a parameter that has the name of a field ends in \<open>_arg\<close>).
\<close>

type_synonym addr = nat

record 'f block =
  index :: int
  timestamp :: 'f
  transactions :: addr
  proof' :: int
  previous_hash :: prev

record 'f blockchain =
  chain' :: "'f block list"
  current_transactions :: addr
  heap :: "addr \<Rightarrow> 'f transaction list"

datatype py_error = IndexError

text \<open>
  The expression \<^verbatim>\<open>[]\<close> makes a new list object: its address is one that neither
  the object nor a block of the chain holds.
\<close>

definition unused :: "'f blockchain \<Rightarrow> addr" where
  "unused s = Suc (fold max (map transactions (chain' s)) (current_transactions s))"

definition new_list :: "'f blockchain \<Rightarrow> 'f blockchain \<times> addr" where
  "new_list s = (s\<lparr>heap := (heap s)(unused s := [])\<rparr>, unused s)"

text \<open>
  \<^verbatim>\<open>new_block(self, proof, previous_hash = None)\<close>. The reading of the clock,
  \<^verbatim>\<open>time()\<close>, is the argument \<open>now\<close>. The result is the new state and the block
  returned.
\<close>

definition new_block :: "'f blockchain \<Rightarrow> 'f \<Rightarrow> int \<Rightarrow> prev \<Rightarrow> 'f blockchain \<times> 'f block" where
  "new_block s now proof previous_hash_arg =
     (let block = \<lparr>index = int (length (chain' s)) + 1,
                   timestamp = now,
                   transactions = current_transactions s,
                   proof' = proof,
                   previous_hash = previous_hash_arg\<rparr>;
          (s1, a) = new_list s;
          s2 = s1\<lparr>current_transactions := a\<rparr>;
          s3 = s2\<lparr>chain' := chain' s2 @ [block]\<rparr>
      in (s3, block))"

text \<open>A call that leaves \<^verbatim>\<open>previous_hash\<close> out.\<close>

definition new_block_default :: "'f blockchain \<Rightarrow> 'f \<Rightarrow> int \<Rightarrow> 'f blockchain \<times> 'f block" where
  "new_block_default s now proof = new_block s now proof PNone"

text \<open>\<^verbatim>\<open>__init__(self)\<close>: two empty lists (the list of transactions is the list object
  at address 0), then the origin block.\<close>

definition init :: "'f \<Rightarrow> 'f blockchain" where
  "init now =
     (let s0 = \<lparr>chain' = [], current_transactions = 0, heap = (\<lambda>a. [])\<rparr>
      in fst (new_block s0 now 100 (PInt 1)))"

text \<open>The property \<^verbatim>\<open>last_block\<close>: \<^verbatim>\<open>self.chain[-1]\<close> raises IndexError on an empty
  list.\<close>

definition last_block :: "'f blockchain \<Rightarrow> py_error + 'f block" where
  "last_block s = (if chain' s = [] then Inl IndexError else Inr (last (chain' s)))"

text \<open>
  \<^verbatim>\<open>new_transaction(self, sender, recipient, amount)\<close>: the append happens first, so
  the state is the new one also when \<^verbatim>\<open>self.last_block\<close> raises.
\<close>

definition new_transaction ::
  "'f blockchain \<Rightarrow> string \<Rightarrow> string \<Rightarrow> 'f number \<Rightarrow> 'f blockchain \<times> (py_error + int)" where
  "new_transaction s sender_arg recipient_arg amount_arg =
     (let a = current_transactions s;
          s1 = s\<lparr>heap := (heap s)(a := heap s a @
                 [\<lparr>sender = sender_arg, recipient = recipient_arg, amount = amount_arg\<rparr>])\<rparr>
      in (s1, case last_block s1 of Inl e \<Rightarrow> Inl e | Inr b \<Rightarrow> Inr (index b + 1)))"

text \<open>\<^verbatim>\<open>is_valid_proof(last_proof, proof)\<close>\<close>

definition is_valid_proof :: "int \<Rightarrow> int \<Rightarrow> bool" where
  "is_valid_proof last_proof proof =
     (let encoded = encode (str_int proof @ str_int last_proof);
          hashed = hexdigest encoded
      in take 4 hashed = ''0000'')"

text \<open>
  \<^verbatim>\<open>proof_of_work(self, last_proof)\<close>: the \<^verbatim>\<open>while\<close> loop, with the value \<open>None\<close> when
  it runs forever.
\<close>

partial_function (option) proof_of_work_loop :: "int \<Rightarrow> int \<Rightarrow> int option" where
  "proof_of_work_loop last_proof proof =
     (if is_valid_proof last_proof proof then Some proof
      else proof_of_work_loop last_proof (proof + 1))"

definition proof_of_work :: "int \<Rightarrow> int option" where
  "proof_of_work last_proof = proof_of_work_loop last_proof 0"

text \<open>The dicts as \<^verbatim>\<open>json.dumps\<close> sees them, items in the order the source writes
  them.\<close>

definition number_json :: "'f number \<Rightarrow> 'f json" where
  "number_json n = (case n of NInt i \<Rightarrow> JInt i | NFloat x \<Rightarrow> JFloat x)"

definition prev_json :: "prev \<Rightarrow> 'f json" where
  "prev_json p = (case p of PNone \<Rightarrow> JNull | PInt i \<Rightarrow> JInt i | PStr s \<Rightarrow> JStr s)"

definition transaction_dict :: "'f transaction \<Rightarrow> 'f json" where
  "transaction_dict t =
     JDict [(''sender'', JStr (sender t)),
            (''recipient'', JStr (recipient t)),
            (''amount'', number_json (amount t))]"

definition block_dict :: "(addr \<Rightarrow> 'f transaction list) \<Rightarrow> 'f block \<Rightarrow> 'f json" where
  "block_dict h b =
     JDict [(''index'', JInt (index b)),
            (''timestamp'', JFloat (timestamp b)),
            (''transactions'', JList (map transaction_dict (h (transactions b)))),
            (''proof'', JInt (proof' b)),
            (''previous_hash'', prev_json (previous_hash b))]"

text \<open>\<^verbatim>\<open>hash(block)\<close>, the static method.\<close>

definition hash :: "('f \<Rightarrow> string) \<Rightarrow> 'f json \<Rightarrow> string" where
  "hash fr block =
     (let block_as_json_str = encode (json_dumps fr block)
      in hexdigest block_as_json_str)"

subsection \<open>Sequences of calls\<close>

text \<open>
  The calls that change the object are \<^verbatim>\<open>new_block\<close> and \<^verbatim>\<open>new_transaction\<close>. A state
  is reachable when it is \<open>run_calls (init now) cs\<close> for a clock reading \<open>now\<close> and a
  list of calls \<open>cs\<close>.
\<close>

datatype 'f call =
    New_block 'f int prev
  | New_transaction string string "'f number"

fun exec :: "'f blockchain \<Rightarrow> 'f call \<Rightarrow> 'f blockchain" where
  "exec s (New_block now proof previous_hash_arg) = fst (new_block s now proof previous_hash_arg)"
| "exec s (New_transaction sender_arg recipient_arg amount_arg) =
     fst (new_transaction s sender_arg recipient_arg amount_arg)"

definition run_calls :: "'f blockchain \<Rightarrow> 'f call list \<Rightarrow> 'f blockchain" where
  "run_calls s cs = foldl exec s cs"

subsection \<open>What the claims observe, and the invariants of the reachable states\<close>

text \<open>
  The chain as values: every block of the chain together with the contents of the list
  object its \<^verbatim>\<open>"transactions"\<close> entry refers to.
\<close>

definition chain_contents :: "'f blockchain \<Rightarrow> ('f block \<times> 'f transaction list) list" where
  "chain_contents s = map (\<lambda>b. (b, heap s (transactions b))) (chain' s)"

text \<open>
  A list of calls in which every \<^verbatim>\<open>new_block\<close> is given, as \<^verbatim>\<open>previous_hash\<close>, the hash
  of the block that is last in the chain at that moment:
  \<^verbatim>\<open>new_block(proof, Blockchain.hash(self.last_block))\<close>.
\<close>

fun linked_calls :: "('f \<Rightarrow> string) \<Rightarrow> 'f blockchain \<Rightarrow> 'f call list \<Rightarrow> bool" where
  "linked_calls fr s [] = True"
| "linked_calls fr s (New_block now proof previous_hash_arg # cs) =
     (previous_hash_arg = PStr (hash fr (block_dict (heap s) (last (chain' s))))
      \<and> linked_calls fr (exec s (New_block now proof previous_hash_arg)) cs)"
| "linked_calls fr s (New_transaction sender_arg recipient_arg amount_arg # cs) =
     linked_calls fr (exec s (New_transaction sender_arg recipient_arg amount_arg)) cs"

text \<open>Every block but the first holds the hash of the block before it.\<close>

definition chain_linked :: "('f \<Rightarrow> string) \<Rightarrow> 'f blockchain \<Rightarrow> bool" where
  "chain_linked fr s =
     (\<forall>i. 0 < i \<and> i < length (chain' s) \<longrightarrow>
        previous_hash (chain' s ! i) = PStr (hash fr (block_dict (heap s) (chain' s ! (i - 1)))))"

text \<open>No block of the chain refers to the list object that \<^verbatim>\<open>self.current_transactions\<close>
  refers to.\<close>

definition no_alias :: "'f blockchain \<Rightarrow> bool" where
  "no_alias s = list_all (\<lambda>b. transactions b \<noteq> current_transactions s) (chain' s)"

text \<open>The chain is not empty and its last block has the length of the chain as index.\<close>

definition numbered :: "'f blockchain \<Rightarrow> bool" where
  "numbered s = (chain' s \<noteq> [] \<and> index (last (chain' s)) = int (length (chain' s)))"


section \<open>Lemmas\<close>

subsection \<open>Addresses and the two methods that change the object\<close>

lemma fold_max_ge: "a \<le> fold max xs (a :: nat)"
  by (induction xs arbitrary: a) (auto intro: order_trans [OF max.cobounded2])

lemma fold_max_mem: "x \<in> set xs \<Longrightarrow> x \<le> fold max xs (a :: nat)"
proof (induction xs arbitrary: a)
  case Nil
  then show ?case by simp
next
  case (Cons y ys)
  show ?case
  proof (cases "x = y")
    case True
    have "y \<le> max y a" by simp
    also have "\<dots> \<le> fold max ys (max y a)" by (rule fold_max_ge)
    finally show ?thesis using True by simp
  next
    case False
    with Cons show ?thesis by simp
  qed
qed

lemma current_less_unused: "current_transactions s < unused s"
  by (simp add: unused_def fold_max_ge less_Suc_eq_le)

lemma block_less_unused: "b \<in> set (chain' s) \<Longrightarrow> transactions b < unused s"
  by (simp add: unused_def fold_max_mem less_Suc_eq_le)

lemma new_block_result:
  "snd (new_block s now p ph) =
     \<lparr>index = int (length (chain' s)) + 1, timestamp = now,
      transactions = current_transactions s, proof' = p, previous_hash = ph\<rparr>"
  by (simp add: new_block_def new_list_def Let_def)

lemma chain_new_block:
  "chain' (fst (new_block s now p ph)) = chain' s @ [snd (new_block s now p ph)]"
  by (simp add: new_block_def new_list_def Let_def)

lemma current_new_block: "current_transactions (fst (new_block s now p ph)) = unused s"
  by (simp add: new_block_def new_list_def Let_def)

lemma heap_new_block: "heap (fst (new_block s now p ph)) = (heap s)(unused s := [])"
  by (simp add: new_block_def new_list_def Let_def)

lemma chain_new_transaction: "chain' (fst (new_transaction s a b c)) = chain' s"
  by (simp add: new_transaction_def Let_def)

lemma current_new_transaction:
  "current_transactions (fst (new_transaction s a b c)) = current_transactions s"
  by (simp add: new_transaction_def Let_def)

lemma heap_new_transaction:
  "heap (fst (new_transaction s a b c)) =
     (heap s)(current_transactions s :=
        heap s (current_transactions s) @ [\<lparr>sender = a, recipient = b, amount = c\<rparr>])"
  by (simp add: new_transaction_def Let_def)

lemma result_new_transaction:
  "snd (new_transaction s a b c) =
     (if chain' s = [] then Inl IndexError else Inr (index (last (chain' s)) + 1))"
  by (simp add: new_transaction_def last_block_def Let_def)

lemma run_calls_Nil: "run_calls s [] = s"
  by (simp add: run_calls_def)

lemma run_calls_Cons: "run_calls s (c # cs) = run_calls (exec s c) cs"
  by (simp add: run_calls_def)

lemma run_calls_snoc: "run_calls s (cs @ [c]) = exec (run_calls s cs) c"
  by (simp add: run_calls_def)

lemma run_calls_append: "run_calls s (cs @ ds) = run_calls (run_calls s cs) ds"
  by (simp add: run_calls_def)

subsection \<open>The invariants hold in every reachable state\<close>

lemma no_alias_exec: "no_alias s \<Longrightarrow> no_alias (exec s c)"
proof (cases c)
  case (New_block now p ph)
  assume "no_alias s"
  have "transactions b \<noteq> unused s" if "b \<in> set (chain' s)" for b
    using block_less_unused [OF that] by simp
  moreover have "current_transactions s \<noteq> unused s"
    using current_less_unused [of s] by simp
  ultimately show ?thesis
    using New_block
    by (simp add: no_alias_def chain_new_block current_new_block new_block_result list_all_iff)
next
  case (New_transaction a b c')
  assume "no_alias s"
  then show ?thesis
    using New_transaction
    by (simp add: no_alias_def chain_new_transaction current_new_transaction)
qed

lemma numbered_exec: "numbered (exec s c)" if "numbered s"
proof (cases c)
  case (New_block now p ph)
  then show ?thesis
    by (simp add: numbered_def chain_new_block new_block_result)
next
  case (New_transaction a b c')
  then show ?thesis
    using that by (simp add: numbered_def chain_new_transaction)
qed

lemma no_alias_init: "no_alias (init now)"
  by (simp add: init_def no_alias_def chain_new_block current_new_block new_block_result
      unused_def)

lemma numbered_init: "numbered (init now)"
  by (simp add: init_def numbered_def chain_new_block new_block_result)

lemma no_alias_run: "no_alias s \<Longrightarrow> no_alias (run_calls s cs)"
  by (induction cs arbitrary: s) (simp_all add: run_calls_Nil run_calls_Cons no_alias_exec)

lemma numbered_run: "numbered s \<Longrightarrow> numbered (run_calls s cs)"
  by (induction cs arbitrary: s) (simp_all add: run_calls_Nil run_calls_Cons numbered_exec)

lemmas reachable_no_alias = no_alias_run [OF no_alias_init]
lemmas reachable_numbered = numbered_run [OF numbered_init]

subsection \<open>Blocks of the chain keep their contents\<close>

lemma contents_new_transaction:
  assumes "no_alias s"
  shows "chain_contents (fst (new_transaction s a b c)) = chain_contents s"
  using assms
  by (auto simp add: chain_contents_def chain_new_transaction heap_new_transaction no_alias_def
      list_all_iff)

lemma contents_new_block:
  "chain_contents (fst (new_block s now p ph)) =
     chain_contents s @ [(snd (new_block s now p ph), heap s (current_transactions s))]"
proof -
  have "transactions b \<noteq> unused s" if "b \<in> set (chain' s)" for b
    using block_less_unused [OF that] by simp
  moreover have "current_transactions s \<noteq> unused s"
    using current_less_unused [of s] by simp
  ultimately show ?thesis
    by (simp add: chain_contents_def chain_new_block heap_new_block new_block_result)
qed

lemma contents_exec:
  "no_alias s \<Longrightarrow> take (length (chain' s)) (chain_contents (exec s c)) = chain_contents s"
proof (cases c)
  case (New_block now p ph)
  have "length (chain_contents s) = length (chain' s)"
    by (simp add: chain_contents_def)
  then show ?thesis
    using New_block by (simp add: contents_new_block)
next
  case (New_transaction a b c')
  assume "no_alias s"
  then have "chain_contents (exec s c) = chain_contents s"
    using New_transaction by (simp add: contents_new_transaction)
  moreover have "length (chain_contents s) = length (chain' s)"
    by (simp add: chain_contents_def)
  ultimately show ?thesis
    by simp
qed

lemma length_chain_exec: "length (chain' s) \<le> length (chain' (exec s c))"
  by (cases c) (simp_all add: chain_new_block chain_new_transaction)

lemma contents_run:
  "no_alias s \<Longrightarrow> take (length (chain' s)) (chain_contents (run_calls s cs)) = chain_contents s"
proof (induction cs arbitrary: s)
  case Nil
  then show ?case
    by (simp add: run_calls_Nil chain_contents_def)
next
  case (Cons c cs)
  let ?n = "length (chain' s)" and ?m = "length (chain' (exec s c))"
  have "take ?m (chain_contents (run_calls (exec s c) cs)) = chain_contents (exec s c)"
    using Cons.IH [OF no_alias_exec [OF Cons.prems]] .
  then have "take ?n (take ?m (chain_contents (run_calls (exec s c) cs))) = chain_contents s"
    using contents_exec [OF Cons.prems] by simp
  moreover have "min ?n ?m = ?n"
    using length_chain_exec [of s c] by simp
  ultimately show ?case
    by (simp add: run_calls_Cons)
qed

lemma run_new_transactions:
  "chain' (run_calls s (map (\<lambda>(a, b, c). New_transaction a b c) txs)) = chain' s
   \<and> current_transactions (run_calls s (map (\<lambda>(a, b, c). New_transaction a b c) txs))
       = current_transactions s
   \<and> heap (run_calls s (map (\<lambda>(a, b, c). New_transaction a b c) txs)) (current_transactions s)
       = heap s (current_transactions s)
           @ map (\<lambda>(a, b, c). \<lparr>sender = a, recipient = b, amount = c\<rparr>) txs"
proof (induction txs arbitrary: s)
  case Nil
  show ?case
    by (simp add: run_calls_Nil)
next
  case (Cons t txs)
  obtain a b c where t: "t = (a, b, c)"
    by (cases t)
  let ?s = "fst (new_transaction s a b c)"
  have cur: "current_transactions ?s = current_transactions s"
    by (simp add: current_new_transaction)
  show ?case
    using Cons.IH [of ?s]
    by (simp add: t run_calls_Cons cur chain_new_transaction heap_new_transaction)
qed

subsection \<open>Linked chains\<close>

lemma block_dict_cong:
  "h' (transactions b) = h (transactions b) \<Longrightarrow> block_dict h' b = block_dict h b"
  by (simp add: block_dict_def)

lemma chain_linked_new_transaction:
  assumes "no_alias s" "chain_linked fr s"
  shows "chain_linked fr (fst (new_transaction s a b c))"
proof -
  have same: "block_dict (heap (fst (new_transaction s a b c))) x = block_dict (heap s) x"
    if "x \<in> set (chain' s)" for x
    using assms(1) that
    by (intro block_dict_cong) (simp add: heap_new_transaction no_alias_def list_all_iff)
  have "block_dict (heap (fst (new_transaction s a b c))) (chain' s ! (i - 1))
      = block_dict (heap s) (chain' s ! (i - 1))" if "0 < i \<and> i < length (chain' s)" for i
  proof (rule same)
    from that have "i - 1 < length (chain' s)"
      by arith
    then show "chain' s ! (i - 1) \<in> set (chain' s)"
      by (rule nth_mem)
  qed
  then show ?thesis
    using assms(2) by (simp add: chain_linked_def chain_new_transaction)
qed

lemma chain_linked_new_block:
  assumes "chain_linked fr s"
    and "ph = PStr (hash fr (block_dict (heap s) (last (chain' s))))"
  shows "chain_linked fr (fst (new_block s now p ph))"
  unfolding chain_linked_def
proof (intro allI impI)
  fix i
  let ?s = "fst (new_block s now p ph)"
  assume i: "0 < i \<and> i < length (chain' ?s)"
  have same: "block_dict (heap ?s) x = block_dict (heap s) x" if "x \<in> set (chain' s)" for x
    using block_less_unused [OF that]
    by (intro block_dict_cong) (simp add: heap_new_block)
  from i have "0 < i \<and> i < Suc (length (chain' s))"
    by (simp add: chain_new_block)
  then have less: "i - 1 < length (chain' s)"
    by arith
  then have prev_in: "chain' s ! (i - 1) \<in> set (chain' s)"
    by (rule nth_mem)
  have prev: "chain' ?s ! (i - 1) = chain' s ! (i - 1)"
    using less by (simp add: chain_new_block nth_append)
  show "previous_hash (chain' ?s ! i) = PStr (hash fr (block_dict (heap ?s) (chain' ?s ! (i - 1))))"
  proof (cases "i < length (chain' s)")
    case True
    then have "chain' ?s ! i = chain' s ! i"
      by (simp add: chain_new_block nth_append)
    then show ?thesis
      using assms(1) i True prev same [OF prev_in] by (simp add: chain_linked_def)
  next
    case False
    with i have eq: "i = length (chain' s)"
      by (simp add: chain_new_block)
    with i have "chain' s \<noteq> []"
      by auto
    then have "last (chain' s) = chain' s ! (i - 1)"
      using eq by (simp add: last_conv_nth)
    moreover have "chain' ?s ! i = snd (new_block s now p ph)"
      using eq by (simp add: chain_new_block)
    ultimately show ?thesis
      using assms(2) prev same [OF prev_in] by (simp add: new_block_result)
  qed
qed

lemma chain_linked_run:
  "no_alias s \<Longrightarrow> chain_linked fr s \<Longrightarrow> linked_calls fr s cs \<Longrightarrow> chain_linked fr (run_calls s cs)"
proof (induction cs arbitrary: s)
  case Nil
  then show ?case
    by (simp add: run_calls_Nil)
next
  case (Cons c cs)
  have "chain_linked fr (exec s c) \<and> linked_calls fr (exec s c) cs"
    using Cons.prems
    by (cases c) (simp_all add: chain_linked_new_block chain_linked_new_transaction)
  then show ?case
    using Cons.IH [of "exec s c"] no_alias_exec [OF Cons.prems(1), of c]
    by (simp add: run_calls_Cons)
qed

lemma chain_linked_init: "chain_linked fr (init now)"
  by (simp add: chain_linked_def init_def chain_new_block)

subsection \<open>The shape of a digest\<close>

text \<open>The padded message is a whole number of chunks of 64 bytes.\<close>

lemma pad_zeros:
  fixes r :: nat
  assumes "r < 64"
  shows "(r + ((119 - r) mod 64 + 9)) mod 64 = 0"
proof (cases "r \<le> 55")
  case True
  then have "119 - r = 55 - r + 1 * 64"
    by arith
  then have "(119 - r) mod 64 = (55 - r) mod 64"
    by (simp only: mod_mult_self1)
  with True have "(119 - r) mod 64 = 55 - r"
    by simp
  with True have "r + ((119 - r) mod 64 + 9) = 64"
    by arith
  then show ?thesis
    by (simp only: mod_self)
next
  case False
  with assms have "(119 - r) mod 64 = 119 - r"
    by simp
  with assms have "r + ((119 - r) mod 64 + 9) = 0 + 2 * 64"
    by arith
  then show ?thesis
    by (simp only: mod_mult_self1)
qed

lemma length_pad_eq: "length (pad m) = length m + ((119 - length m mod 64) mod 64 + 9)"
  by (simp add: pad_def bitlen_def)

lemma length_pad: "64 dvd length (pad m)"
proof -
  let ?l = "length m"
  have "length (pad m) mod 64 = (?l mod 64 + ((119 - ?l mod 64) mod 64 + 9)) mod 64"
    unfolding length_pad_eq by (rule mod_add_left_eq [symmetric])
  also have "\<dots> = 0"
    by (rule pad_zeros) simp
  finally show ?thesis
    by (simp only: dvd_eq_mod_eq_0)
qed


lemma length_hex32: "length (hex32 w) = 8"
  by (simp add: hex32_def)


lemma length_sha_round: "length (sha_round s kw) = length s"
  by (cases "(s, kw)" rule: sha_round.cases) (simp_all add: Let_def)

lemma length_foldl_sha_round: "length (foldl sha_round s kws) = length s"
  by (induction kws arbitrary: s) (simp_all add: length_sha_round)

lemma length_compress: "length (compress hs chunk) = length hs"
  by (simp add: compress_def Let_def length_foldl_sha_round)

lemma length_foldl_compress: "length (foldl compress hs cs) = length hs"
  by (induction cs arbitrary: hs) (simp_all add: length_compress)

lemma length_sha256: "length (sha256 m) = 8"
  by (simp add: sha256_def Let_def length_foldl_compress H0_def)

lemma length_concat_hex32: "length (concat (map hex32 ws)) = 8 * length ws"
  by (induction ws) (simp_all add: length_hex32)

lemma length_hexdigest: "length (hexdigest m) = 64"
  by (simp add: hexdigest_def length_concat_hex32 length_sha256)


lemma length_hash: "length (hash fr block) = 64"
  by (simp add: hash_def length_hexdigest)

subsection \<open>Sorted keys\<close>







subsection \<open>The loop of proof_of_work\<close>

lemma loop_finds:
  assumes "is_valid_proof last_proof (int k)"
    and "\<And>j. j < k \<Longrightarrow> \<not> is_valid_proof last_proof (int j)"
  shows "j \<le> k \<Longrightarrow> proof_of_work_loop last_proof (int j) = Some (int k)"
proof (induction "k - j" arbitrary: j)
  case 0
  then have "j = k"
    by simp
  then show ?case
    using assms(1) by (simp add: proof_of_work_loop.simps)
next
  case (Suc n)
  then have "j < k"
    by simp
  then have "proof_of_work_loop last_proof (int j) = proof_of_work_loop last_proof (int j + 1)"
    using assms(2) by (subst proof_of_work_loop.simps) simp
  also have "int j + 1 = int (Suc j)"
    by simp
  also have "proof_of_work_loop last_proof (int (Suc j)) = Some (int k)"
    using Suc \<open>j < k\<close> by (intro Suc.hyps(1)) simp_all
  finally show ?case .
qed

lemma loop_Some_valid:
  assumes "proof_of_work_loop last_proof p = Some q"
  shows "\<exists>r\<ge>p. is_valid_proof last_proof r"
proof (rule proof_of_work_loop.raw_induct
    [where P = "\<lambda>lp p q. \<exists>r\<ge>p. is_valid_proof lp r", OF _ assms])
  fix loop :: "int \<Rightarrow> int \<Rightarrow> int option" and lp p q
  assume IH: "\<And>x y z. loop x y = Some z \<Longrightarrow> \<exists>r\<ge>y. is_valid_proof x r"
    and eq: "(if is_valid_proof lp p then Some p else loop lp (p + 1)) = Some q"
  show "\<exists>r\<ge>p. is_valid_proof lp r"
  proof (cases "is_valid_proof lp p")
    case True
    then show ?thesis
      by auto
  next
    case False
    with eq have "loop lp (p + 1) = Some q"
      by simp
    from IH [OF this] obtain r where "p + 1 \<le> r" "is_valid_proof lp r"
      by auto
    then show ?thesis
      by (intro exI [of _ r]) simp
  qed
qed

lemma proof_of_work_None:
  assumes "\<And>r. 0 \<le> r \<Longrightarrow> \<not> is_valid_proof last_proof r"
  shows "proof_of_work last_proof = None"
  using assms loop_Some_valid [of last_proof 0]
  by (cases "proof_of_work_loop last_proof 0") (auto simp add: proof_of_work_def)

subsection \<open>Values evaluated\<close>

text \<open>
  The values below are the ones CPython gives: the digests of \<^verbatim>\<open>hashlib\<close> for the same
  bytes, \<^verbatim>\<open>json.dumps\<close> of the string \<^verbatim>\<open>a"\<close>, a newline, U+0001, U+00E9, and
  \<^verbatim>\<open>Blockchain.hash\<close> of two blocks. In these examples and in the ones of the next
  section a float is given by the text that \<^verbatim>\<open>json\<close> writes for it (\<^verbatim>\<open>1.5\<close> for the
  clock reading 1.5), so \<open>fr\<close> is the identity.
\<close>

lemma encode_basestring_ascii_example:
  "encode_basestring_ascii [CHR ''a'', CHR 0x22, CHR 0x0A, CHR 0x01, CHR 0xE9]
     = [CHR 0x22, CHR ''a'', CHR 0x5C, CHR 0x22, CHR 0x5C, CHR ''n'',
        CHR 0x5C, CHR ''u'', CHR ''0'', CHR ''0'', CHR ''0'', CHR ''1'',
        CHR 0x5C, CHR ''u'', CHR ''0'', CHR ''0'', CHR ''e'', CHR ''9'', CHR 0x22]"
  by (simp add: encode_basestring_ascii_def escape_char_def hex4_def digit_char_def)



lemma digest_072608:
  "hexdigest ''072608'' = ''77e2ac162eee6e257a8ea40cb6f6067e9444ae7678c35c68b05ea43f3e66dbfb''"
  by code_simp

lemma digest_172608:
  "hexdigest ''172608'' = ''0000f727854b50bb95c054b39c1fe5c92e5ebcfa4bcb5dc279f56aa96a365e5a''"
  by code_simp

lemmas text_eval = str_int_def digits.simps digit_char_def encode_def utf8_char_def

lemma hash_origin_block:
  "hash (\<lambda>x. x)
     (JDict [(''index'', JInt 1), (''timestamp'', JFloat ''1.5''), (''transactions'', JList []),
             (''proof'', JInt 100), (''previous_hash'', JInt 1)])
   = ''24a5aa89b15b56845fd5613f219725a3aa309cc7dc472ea244094f583a50e409''"
  by code_simp

lemma hash_second_block:
  "hash (\<lambda>x. x)
     (JDict [(''index'', JInt 2), (''timestamp'', JFloat ''2.5''),
             (''transactions'', JList [JDict [(''sender'', JStr ''A''), (''recipient'', JStr ''B''),
                                              (''amount'', JInt 5)]]),
             (''proof'', JInt 7),
             (''previous_hash'',
                JStr ''24a5aa89b15b56845fd5613f219725a3aa309cc7dc472ea244094f583a50e409'')])
   = ''f84a80a823992cc681cc76f810854aedacd318e06073808a33fa3c4aef9c3ee5''"
  by code_simp

section \<open>The claims\<close>

text \<open>
  In the statements below a reachable state is written \<open>run_calls (init now) cs\<close>: the
  object after \<^verbatim>\<open>__init__\<close> (with the clock reading \<open>now\<close>) and the calls \<open>cs\<close>.
  Positions in the chain count from 0, so the block at position \<open>i\<close> is the block with
  index \<open>i + 1\<close>.
\<close>

subsection \<open>C1: every block but the first holds the hash of the block before it\<close>

text \<open>
  C1, as stated: in every reachable state, every block of the chain but the first has, as
  \<^verbatim>\<open>previous_hash\<close>, the hash of the block before it. \<^verbatim>\<open>new_block\<close> stores the
  \<^verbatim>\<open>previous_hash\<close> it is given and never computes or checks a hash, so the statement
  fails: after \<^verbatim>\<open>__init__\<close>, \<^verbatim>\<open>new_block(7)\<close> and \<^verbatim>\<open>new_block(8, "abc")\<close> the second
  block holds \<^verbatim>\<open>None\<close> and the third holds \<^verbatim>\<open>"abc"\<close>, and neither is the hash of the
  block before.
\<close>

theorem chain_linkage_counterexample:
  "(let s = run_calls (init ''1.5'') [New_block ''2.5'' 7 PNone, New_block ''3.5'' 8 (PStr ''abc'')]
    in length (chain' s) = 3
     \<and> previous_hash (chain' s ! 1) \<noteq> PStr (hash (\<lambda>x. x) (block_dict (heap s) (chain' s ! 0)))
     \<and> previous_hash (chain' s ! 2) \<noteq> PStr (hash (\<lambda>x. x) (block_dict (heap s) (chain' s ! 1))))"
proof -
  have "''abc'' \<noteq> hash fr d" for fr :: "string \<Rightarrow> string" and d
  proof
    assume "''abc'' = hash fr d"
    then have "length ''abc'' = length (hash fr d)"
      by (rule arg_cong)
    then show False
      by (simp add: length_hash)
  qed
  then show ?thesis
    by (simp add: Let_def run_calls_def init_def chain_new_block new_block_result)
qed

text \<open>
  C1, amended: in every state reached from \<^verbatim>\<open>__init__\<close> by calls of \<^verbatim>\<open>new_transaction\<close>
  and by calls of \<^verbatim>\<open>new_block\<close> that are given the hash of the last block of the chain as
  \<^verbatim>\<open>previous_hash\<close>, every block of the chain but the first has, as \<^verbatim>\<open>previous_hash\<close>,
  the hash of the block before it, taken over that whole block (its own
  \<^verbatim>\<open>previous_hash\<close> and its transactions included).
\<close>

theorem chain_linkage:
  assumes "linked_calls fr (init now) cs"
    and "0 < i" and "i < length (chain' (run_calls (init now) cs))"
  shows "previous_hash (chain' (run_calls (init now) cs) ! i)
     = PStr (hash fr (block_dict (heap (run_calls (init now) cs))
         (chain' (run_calls (init now) cs) ! (i - 1))))"
  using chain_linked_run [OF no_alias_init chain_linked_init assms(1)] assms(2,3)
  by (simp add: chain_linked_def)

text \<open>
  A chain of three blocks: \<^verbatim>\<open>new_transaction("A", "B", 5)\<close>, then two calls of
  \<^verbatim>\<open>new_block\<close>, each given the digest of the block that is last at that moment.
\<close>

theorem chain_linkage_witness:
  "(let s = run_calls (init ''1.5'')
              [New_transaction ''A'' ''B'' (NInt 5),
               New_block ''2.5'' 7
                 (PStr ''24a5aa89b15b56845fd5613f219725a3aa309cc7dc472ea244094f583a50e409''),
               New_block ''3.5'' 8
                 (PStr ''f84a80a823992cc681cc76f810854aedacd318e06073808a33fa3c4aef9c3ee5'')]
    in length (chain' s) = 3
     \<and> previous_hash (chain' s ! 1) = PStr (hash (\<lambda>x. x) (block_dict (heap s) (chain' s ! 0)))
     \<and> previous_hash (chain' s ! 2) = PStr (hash (\<lambda>x. x) (block_dict (heap s) (chain' s ! 1))))"
proof -
  let ?cs = "[New_transaction ''A'' ''B'' (NInt 5),
              New_block ''2.5'' 7
                (PStr ''24a5aa89b15b56845fd5613f219725a3aa309cc7dc472ea244094f583a50e409''),
              New_block ''3.5'' 8
                (PStr ''f84a80a823992cc681cc76f810854aedacd318e06073808a33fa3c4aef9c3ee5'')]"
  have len: "length (chain' (run_calls (init ''1.5'') ?cs)) = 3"
    by (simp add: run_calls_def init_def chain_new_block chain_new_transaction)
  have linked: "linked_calls (\<lambda>x. x) (init ''1.5'') ?cs"
    by (simp add: init_def chain_new_block chain_new_transaction heap_new_block
        heap_new_transaction current_new_block current_new_transaction new_block_result
        unused_def block_dict_def transaction_dict_def number_json_def prev_json_def
        hash_origin_block hash_second_block)
  from chain_linkage [OF linked, of 1] chain_linkage [OF linked, of 2] len show ?thesis
    by (simp add: Let_def)
qed

subsection \<open>C2: the validity predicate\<close>



subsection \<open>C3: the search returns the least valid proof\<close>

text \<open>
  C3: for every integer \<open>last_proof\<close> for which some integer \<open>p \<ge> 0\<close> is a valid proof,
  \<^verbatim>\<open>proof_of_work(last_proof)\<close> returns, and what it returns is the least non-negative
  integer that is a valid proof.
\<close>

theorem proof_of_work_least:
  assumes "0 \<le> p" and "is_valid_proof last_proof p"
  shows "\<exists>q. proof_of_work last_proof = Some q \<and> 0 \<le> q \<and> q \<le> p
     \<and> is_valid_proof last_proof q
     \<and> (\<forall>r. 0 \<le> r \<and> r < q \<longrightarrow> \<not> is_valid_proof last_proof r)"
proof -
  define k where "k = (LEAST n. is_valid_proof last_proof (int n))"
  have p: "is_valid_proof last_proof (int (nat p))"
    using assms by simp
  have valid: "is_valid_proof last_proof (int k)"
    unfolding k_def by (rule LeastI [of _ "nat p"]) (rule p)
  have least: "\<not> is_valid_proof last_proof (int j)" if "j < k" for j
    using that unfolding k_def by (rule not_less_Least)
  have "k \<le> nat p"
    unfolding k_def by (rule Least_le) (rule p)
  then have "int k \<le> p"
    using assms(1) by simp
  moreover have "proof_of_work last_proof = Some (int k)"
    using loop_finds [OF valid least, of 0] by (simp add: proof_of_work_def)
  moreover have "\<not> is_valid_proof last_proof r" if "0 \<le> r \<and> r < int k" for r
  proof -
    from that have "nat r < k"
      by linarith
    from least [OF this] that show ?thesis
      by simp
  qed
  ultimately show ?thesis
    using valid by auto
qed

theorem proof_of_work_least_witness:
  "is_valid_proof 72608 1 \<and> \<not> is_valid_proof 72608 0 \<and> proof_of_work 72608 = Some 1"
proof -
  have "encode (str_int 1 @ str_int 72608) = ''172608''"
    and "encode (str_int 0 @ str_int 72608) = ''072608''"
    by (simp_all add: text_eval)
  then have 1: "is_valid_proof 72608 1" and 0: "\<not> is_valid_proof 72608 0"
    by (simp_all add: is_valid_proof_def digest_172608 digest_072608)
  from proof_of_work_least [of 1 72608, OF _ 1]
  obtain q where q: "proof_of_work 72608 = Some q" "0 \<le> q" "q \<le> 1" "is_valid_proof 72608 q"
    by auto
  then have "q = 0 \<or> q = 1"
    by auto
  with q 0 have "q = 1"
    by auto
  with q 0 1 show ?thesis
    by simp
qed


subsection \<open>C4: the block takes the whole list of transactions\<close>

text \<open>
  C4: in a state whose list of current transactions is empty, after \<open>N\<close> calls of
  \<^verbatim>\<open>new_transaction\<close> and one call of \<^verbatim>\<open>new_block\<close>, the transactions of the new block
  are the \<open>N\<close> submitted ones in the order of submission, none twice and none missing,
  and the list of current transactions is empty again.
\<close>

theorem submit_then_mint:
  assumes "heap s (current_transactions s) = []"
  shows "(let s1 = run_calls s (map (\<lambda>(a, b, c). New_transaction a b c) txs);
              (s2, block) = new_block s1 now p ph
          in heap s2 (transactions block)
               = map (\<lambda>(a, b, c). \<lparr>sender = a, recipient = b, amount = c\<rparr>) txs
           \<and> length (heap s2 (transactions block)) = length txs
           \<and> heap s2 (current_transactions s2) = [])"
proof -
  let ?s1 = "run_calls s (map (\<lambda>(a, b, c). New_transaction a b c) txs)"
  have cur: "current_transactions ?s1 = current_transactions s"
    using run_new_transactions [of s txs] by simp
  have pool: "heap ?s1 (current_transactions s)
      = map (\<lambda>(a, b, c). \<lparr>sender = a, recipient = b, amount = c\<rparr>) txs"
    using run_new_transactions [of s txs] assms by simp
  have "current_transactions ?s1 \<noteq> unused ?s1"
    using current_less_unused [of ?s1] by simp
  then show ?thesis
    using cur pool
    by (simp add: Let_def split_beta new_block_result heap_new_block current_new_block)
qed

theorem submit_then_mint_witness:
  "(let s1 = run_calls (init ''1.5'')
               [New_transaction ''A'' ''B'' (NInt 5), New_transaction ''B'' ''C'' (NFloat ''0.5'')];
        (s2, block) = new_block s1 ''2.5'' 7 PNone
    in heap s2 (transactions block)
         = [\<lparr>sender = ''A'', recipient = ''B'', amount = NInt 5\<rparr>,
            \<lparr>sender = ''B'', recipient = ''C'', amount = NFloat ''0.5''\<rparr>]
     \<and> heap s2 (current_transactions s2) = [])"
proof -
  have "heap (init ''1.5'') (current_transactions (init ''1.5'')) = []"
    by (simp add: init_def heap_new_block current_new_block)
  from submit_then_mint [OF this,
      of "[(''A'', ''B'', NInt 5), (''B'', ''C'', NFloat ''0.5'')]" "''2.5''" 7 PNone]
  show ?thesis
    by (simp add: Let_def split_beta)
qed

subsection \<open>C5: the origin block\<close>

text \<open>
  C5: right after \<^verbatim>\<open>__init__\<close> the chain is exactly one block, with index 1,
  \<^verbatim>\<open>previous_hash\<close> 1, \<^verbatim>\<open>proof\<close> 100 and no transactions; and the chain is not empty in
  any state reached afterwards.
\<close>

theorem genesis_block:
  "chain_contents (init now) =
     [(\<lparr>index = 1, timestamp = now, transactions = 0, proof' = 100, previous_hash = PInt 1\<rparr>, [])]
   \<and> chain' (run_calls (init now) cs) \<noteq> []"
proof -
  have "chain_contents (init now) =
     [(\<lparr>index = 1, timestamp = now, transactions = 0, proof' = 100, previous_hash = PInt 1\<rparr>, [])]"
    by (simp add: init_def chain_contents_def chain_new_block heap_new_block new_block_result
        unused_def)
  moreover have "chain' (run_calls (init now) cs) \<noteq> []"
    using reachable_numbered [of now cs] by (simp add: numbered_def)
  ultimately show ?thesis ..
qed

subsection \<open>C6: the hash of a block\<close>



subsection \<open>C7: last_block\<close>

text \<open>
  C7: \<^verbatim>\<open>last_block\<close> returns the last block of the chain (the block that the latest
  \<^verbatim>\<open>new_block\<close> appended) when the chain is not empty and raises IndexError when it is
  empty; it does not raise in any state reached from \<^verbatim>\<open>__init__\<close>.
\<close>

theorem last_block_spec:
  "(chain' s \<noteq> [] \<longrightarrow> last_block s = Inr (last (chain' s)))
   \<and> (chain' s = [] \<longrightarrow> last_block s = Inl IndexError)
   \<and> last_block (fst (new_block s now p ph)) = Inr (snd (new_block s now p ph))
   \<and> last_block (run_calls (init now') cs) = Inr (last (chain' (run_calls (init now') cs)))"
proof -
  have "chain' (run_calls (init now') cs) \<noteq> []"
    using reachable_numbered [of now' cs] by (simp add: numbered_def)
  then show ?thesis
    by (simp add: last_block_def chain_new_block)
qed

theorem last_block_spec_witness:
  "last_block \<lparr>chain' = [], current_transactions = 0, heap = (\<lambda>a. [])\<rparr>
     = (Inl IndexError :: py_error + string block)
   \<and> last_block (init ''1.5'') =
       Inr \<lparr>index = 1, timestamp = ''1.5'', transactions = 0, proof' = 100, previous_hash = PInt 1\<rparr>"
  using last_block_spec [of "\<lparr>chain' = [], current_transactions = 0, heap = (\<lambda>a. [])\<rparr>"
      "''1.5''" 0 PNone "''1.5''" "[]"]
    last_block_spec [of "init ''1.5''" "''1.5''" 0 PNone "''1.5''" "[]"]
  by (simp add: init_def chain_new_block new_block_result)

subsection \<open>C8: the value new_transaction returns\<close>

text \<open>
  C8: in every reachable state \<^verbatim>\<open>new_transaction\<close> returns the length of the chain
  plus 1, and leaves the chain as it is; the next call returns the same number, so the
  number reserves nothing.
\<close>

theorem new_transaction_index:
  "(let s = run_calls (init now) cs;
        (s1, r1) = new_transaction s a b c;
        (s2, r2) = new_transaction s1 a' b' c'
    in r1 = Inr (int (length (chain' s)) + 1) \<and> chain' s1 = chain' s \<and> r2 = r1)"
proof -
  have "numbered (run_calls (init now) cs)"
    by (rule reachable_numbered)
  then show ?thesis
    by (simp add: Let_def split_beta result_new_transaction chain_new_transaction numbered_def)
qed

subsection \<open>C9: the chain only grows, by new_block\<close>

text \<open>
  C9: in every reachable state \<^verbatim>\<open>new_transaction\<close> leaves the chain and the contents of
  its blocks unchanged, \<^verbatim>\<open>new_block\<close> appends exactly one block (holding the current
  transactions) and changes no earlier block, and after any further calls the blocks
  that were in the chain are still its first blocks, with the same index, timestamp,
  transactions, proof and \<^verbatim>\<open>previous_hash\<close>.
\<close>

theorem chain_append_only:
  "(let s = run_calls (init now) cs
    in chain_contents (fst (new_transaction s a b c)) = chain_contents s
     \<and> chain_contents (fst (new_block s now' p ph)) =
         chain_contents s @ [(snd (new_block s now' p ph), heap s (current_transactions s))]
     \<and> take (length (chain' s)) (chain_contents (run_calls s ds)) = chain_contents s)"
  by (simp add: Let_def contents_new_transaction contents_new_block contents_run
      reachable_no_alias)

subsection \<open>C10: the default of previous_hash\<close>

text \<open>
  C10: \<^verbatim>\<open>new_block(proof)\<close>, with no \<^verbatim>\<open>previous_hash\<close>, appends a block whose
  \<^verbatim>\<open>previous_hash\<close> is \<^verbatim>\<open>None\<close>, which is not the hash of the block before it; and the
  \<^verbatim>\<open>previous_hash\<close> of the origin block is the int 1, not a digest string.
\<close>

theorem default_previous_hash:
  "previous_hash (snd (new_block_default s now p)) = PNone
   \<and> chain' (fst (new_block_default s now p)) = chain' s @ [snd (new_block_default s now p)]
   \<and> previous_hash (snd (new_block_default s now p))
       \<noteq> PStr (hash fr (block_dict (heap s) (last (chain' s))))
   \<and> previous_hash (hd (chain' (init now'))) = PInt 1
   \<and> previous_hash (hd (chain' (init now'))) \<noteq> PStr d"
  by (simp add: new_block_default_def chain_new_block new_block_result init_def)

end
